theory Spec2Isabelle
  imports Complex_Main
begin

section \<open>API performance monitor: the metrics store, the probe loop and the dashboard queries\<close>

text \<open>
  A shallow embedding of \<^verbatim>\<open>api_monitor.py\<close>. The program has three parts that matter here:
  the SQLite table \<^verbatim>\<open>metrics\<close> (\<^verbatim>\<open>init_db\<close>, \<^verbatim>\<open>log_metric\<close>), the probe loop
  \<^verbatim>\<open>monitor_api\<close>, and the two \<^verbatim>\<open>SELECT\<close> statements of \<^verbatim>\<open>dashboard\<close>.
  Everything the program reads from outside (the system clock, the outcome of an HTTP
  request, whether an SQLite call completes) is an explicit input of the model.
\<close>

subsection \<open>The clock\<close>

text \<open>
  What \<^verbatim>\<open>datetime.utcnow()\<close> returns: a naive datetime object with these fields.
\<close>

record datetime =
  year :: nat
  month :: nat
  day :: nat
  hour :: nat
  minute :: nat
  second :: nat
  microsecond :: nat

text \<open>
  The ranges of these fields in a datetime object (\<^verbatim>\<open>MINYEAR\<close> is 1, \<^verbatim>\<open>MAXYEAR\<close> is 9999; the
  day is within its month, which plays no role here).
\<close>

definition valid_datetime :: "datetime \<Rightarrow> bool" where
  "valid_datetime d \<longleftrightarrow>
     1 \<le> year d \<and> year d \<le> 9999 \<and> 1 \<le> month d \<and> month d \<le> 12 \<and> 1 \<le> day d \<and> day d \<le> 31
     \<and> hour d < 24 \<and> minute d < 60 \<and> second d < 60 \<and> microsecond d < 1000000"

text \<open>
  One reading of the system clock. \<^verbatim>\<open>time.time()\<close> returns the reading as seconds since the
  epoch (\<open>epoch\<close>; Python's float is idealised as a real number), \<^verbatim>\<open>datetime.utcnow()\<close>
  returns the same reading as a UTC datetime (\<open>utc\<close>). Both are wall-clock views: nothing
  makes a later reading larger than an earlier one.
\<close>

record clock_reading =
  epoch :: real
  utc :: datetime

text \<open>\<^verbatim>\<open>'%0wd' % n\<close> for a number of at most \<open>w\<close> digits (all datetime fields are).\<close>

primrec zero_padded :: "nat \<Rightarrow> nat \<Rightarrow> string" where
  "zero_padded 0 n = []"
| "zero_padded (Suc w) n = zero_padded w (n div 10) @ [char_of (48 + n mod 10)]"

text \<open>
  \<^verbatim>\<open>datetime.isoformat()\<close>: \<^verbatim>\<open>YYYY-MM-DDTHH:MM:SS\<close>, followed by \<^verbatim>\<open>.ffffff\<close> when the
  microsecond field is not zero.
\<close>

definition isoformat :: "datetime \<Rightarrow> string" where
  "isoformat d =
     zero_padded 4 (year d) @ ''-'' @ zero_padded 2 (month d) @ ''-'' @ zero_padded 2 (day d)
     @ ''T'' @ zero_padded 2 (hour d) @ '':'' @ zero_padded 2 (minute d) @ '':''
     @ zero_padded 2 (second d)
     @ (if microsecond d = 0 then [] else ''.'' @ zero_padded 6 (microsecond d))"

text \<open>
  Reading a timestamp back: the number a string of decimal digits stands for (the codes of
  \<^verbatim>\<open>0\<close>..\<^verbatim>\<open>9\<close> are 48 to 57), and what it is for a string to be the \<open>w\<close>-digit decimal
  numeral of \<open>n\<close>.
\<close>

definition decimal_value :: "string \<Rightarrow> nat" where
  "decimal_value ds = foldl (\<lambda>a c. 10 * a + (of_char c - 48)) 0 ds"

definition is_decimal :: "nat \<Rightarrow> nat \<Rightarrow> string \<Rightarrow> bool" where
  "is_decimal w n ds \<longleftrightarrow>
     length ds = w \<and> set ds \<subseteq> set ''0123456789'' \<and> decimal_value ds = n"

subsection \<open>The table \<^verbatim>\<open>metrics\<close>\<close>

text \<open>
  A row of the table created by \<^verbatim>\<open>init_db\<close>. \<open>success\<close> is an INTEGER column, written
  as 1 or 0; \<open>error_message\<close> is the only column the program writes NULL into.
\<close>

record metric_row =
  row_id :: nat
  timestamp :: string
  endpoint :: string
  http_method :: string
  response_time :: real
  status_code :: int
  success :: int
  error_message :: "string option"

text \<open>
  The database file: the table \<^verbatim>\<open>metrics\<close> (absent before the first \<^verbatim>\<open>init_db\<close>), its rows
  in insertion order, and the AUTOINCREMENT counter SQLite keeps for it in
  \<^verbatim>\<open>sqlite_sequence\<close> (the largest id ever handed out).
\<close>

record database =
  metrics :: "metric_row list option"
  sqlite_sequence :: nat

datatype py_exception =
  KeyError string
  | RequestException string
  | OperationalError string

text \<open>\<^verbatim>\<open>str(e)\<close>. The exceptions of \<^verbatim>\<open>requests\<close> and \<^verbatim>\<open>sqlite3\<close> are carried as their text.\<close>

fun str :: "py_exception \<Rightarrow> string" where
  "str (KeyError k) = [CHR 0x27] @ k @ [CHR 0x27]"
| "str (RequestException m) = m"
| "str (OperationalError m) = m"

text \<open>
  Whether the SQLite calls of one function (connect, execute, commit) complete, or one of
  them raises. A call that raises leaves the database file as it was.
\<close>

datatype sqlite_outcome = Completes | Fails string

definition init_db :: "sqlite_outcome \<Rightarrow> database \<Rightarrow> py_exception + database" where
  "init_db io d =
     (case io of
        Fails m \<Rightarrow> Inl (OperationalError m)
      | Completes \<Rightarrow>
          (case metrics d of
             None \<Rightarrow> Inr (d\<lparr>metrics := Some []\<rparr>)
           | Some rows \<Rightarrow> Inr d))"

text \<open>
  The id an \<^verbatim>\<open>INTEGER PRIMARY KEY AUTOINCREMENT\<close> column gives the next row: one more than
  the largest id ever used in the table. Ids are unbounded here (SQLite's limit is
  \<open>2^63 - 1\<close>).
\<close>

definition next_id :: "nat \<Rightarrow> metric_row list \<Rightarrow> nat" where
  "next_id sq rows = Suc (fold max (map row_id rows) sq)"

text \<open>What one call of \<^verbatim>\<open>log_metric\<close> reads from outside.\<close>

record write_env =
  now :: clock_reading
  sqlite :: sqlite_outcome

definition log_metric ::
  "write_env \<Rightarrow> database \<Rightarrow> string \<Rightarrow> string \<Rightarrow> real \<Rightarrow> int \<Rightarrow> int \<Rightarrow> string option
     \<Rightarrow> py_exception + database" where
  "log_metric w d endpoint' method' response_time' status_code' success' error_message' =
     (case sqlite w of
        Fails m \<Rightarrow> Inl (OperationalError m)
      | Completes \<Rightarrow>
          (case metrics d of
             None \<Rightarrow> Inl (OperationalError ''no such table: metrics'')
           | Some rows \<Rightarrow>
               (let i = next_id (sqlite_sequence d) rows in
                Inr (d\<lparr>metrics := Some (rows @
                        [\<lparr>row_id = i, timestamp = isoformat (utc (now w)),
                          endpoint = endpoint', http_method = method',
                          response_time = response_time', status_code = status_code',
                          success = success', error_message = error_message'\<rparr>]),
                      sqlite_sequence := i\<rparr>))))"

subsection \<open>The probe loop\<close>

text \<open>An entry of \<^verbatim>\<open>API_ENDPOINTS\<close>: a dict from keys to strings.\<close>

type_synonym api = "(string \<times> string) list"

definition API_ENDPOINTS :: "api list" where
  "API_ENDPOINTS =
     [[(''url'', ''https://jsonplaceholder.typicode.com/posts''), (''method'', ''GET'')],
      [(''url'', ''https://jsonplaceholder.typicode.com/comments''), (''method'', ''GET'')],
      [(''url'', ''https://jsonplaceholder.typicode.com/users''), (''method'', ''GET'')]]"

text \<open>
  \<^verbatim>\<open>str.upper()\<close> on a string of ASCII characters (code points below 128), which is what
  an HTTP method is: \<^verbatim>\<open>a\<close>..\<^verbatim>\<open>z\<close> (codes 97 to 122) become \<^verbatim>\<open>A\<close>..\<^verbatim>\<open>Z\<close> (codes 65 to 90),
  every other ASCII character stays as it is. Python maps characters outside ASCII by the
  Unicode case tables, which can change the length of the string; \<open>string\<close> has no such
  characters (codes 128 to 255 are bytes here), so the model says nothing about them, and
  what is proved about the method of a probe is proved for ASCII method strings.
\<close>

definition upper_char :: "char \<Rightarrow> char" where
  "upper_char c =
     (let n = (of_char c :: nat) in if 97 \<le> n \<and> n \<le> 122 then char_of (n - 32) else c)"

definition upper :: "string \<Rightarrow> string" where
  "upper s = map upper_char s"

text \<open>What \<^verbatim>\<open>requests.request(method, url, timeout=5)\<close> does: it returns a response with a
  status code, or raises an exception of the transport (a timeout, a connection failure, a
  DNS failure, ...), carried as its text \<^verbatim>\<open>str(e)\<close>. Nothing makes that text non-empty: an
  exception raised without arguments has the text \<^verbatim>\<open>''\<close>.\<close>

datatype http_outcome = Response int | Raises string

text \<open>
  What one pass of the loop body (one check of one endpoint) reads from outside, in the
  order of the reads:
  \<^item> \<open>at_start\<close>: the clock at \<^verbatim>\<open>start = time.time()\<close>;
  \<^item> \<open>request\<close>: the outcome of the HTTP request;
  \<^item> \<open>at_end\<close>: the clock at the first \<^verbatim>\<open>elapsed = time.time() - start\<close> that runs (in the
    \<^verbatim>\<open>try\<close> block after a response, in the handler after a raise);
  \<^item> \<open>first_write\<close>: the first call of \<^verbatim>\<open>log_metric\<close>;
  \<^item> \<open>at_handler\<close>, \<open>second_write\<close>: the clock and the call of \<^verbatim>\<open>log_metric\<close> in the
    handler, read only when the request returned and the first \<^verbatim>\<open>log_metric\<close> raised.
\<close>

record check_env =
  at_start :: clock_reading
  request :: http_outcome
  at_end :: clock_reading
  first_write :: write_env
  at_handler :: clock_reading
  second_write :: write_env

text \<open>A line written by \<^verbatim>\<open>logging.info\<close> (url, status code, elapsed) or
  \<^verbatim>\<open>logging.error\<close> (url, text of the exception).\<close>

datatype log_record = Info string int real | Error string string

text \<open>The state the loop acts on: the database, the log, and the requests issued so far
  (method and url of each).\<close>

record monitor_state =
  db :: database
  logged :: "log_record list"
  sent :: "(string \<times> string) list"

text \<open>The \<^verbatim>\<open>except Exception as e\<close> block. An exception raised here leaves the loop.\<close>

definition except_block ::
  "py_exception \<Rightarrow> clock_reading \<Rightarrow> write_env \<Rightarrow> real \<Rightarrow> string \<Rightarrow> string \<Rightarrow> monitor_state
     \<Rightarrow> monitor_state \<times> py_exception option" where
  "except_block e clk w start url method' s =
     (let elapsed = epoch clk - start in
      case log_metric w (db s) url method' elapsed (- 1) 0 (Some (str e)) of
        Inl e' \<Rightarrow> (s, Some e')
      | Inr d \<Rightarrow> (s\<lparr>db := d, logged := logged s @ [Error url (str e)]\<rparr>, None))"

text \<open>The body of \<^verbatim>\<open>for api in API_ENDPOINTS\<close>: one check. The second component is the
  exception that leaves the body, if any.\<close>

definition check :: "check_env \<Rightarrow> api \<Rightarrow> monitor_state \<Rightarrow> monitor_state \<times> py_exception option" where
  "check env api s =
     (case map_of api ''url'' of
        None \<Rightarrow> (s, Some (KeyError ''url''))
      | Some url \<Rightarrow>
          (let method' = upper (case map_of api ''method'' of None \<Rightarrow> ''GET'' | Some m \<Rightarrow> m);
               start = epoch (at_start env);
               s1 = s\<lparr>sent := sent s @ [(method', url)]\<rparr>
           in case request env of
                Response code \<Rightarrow>
                  (let elapsed = epoch (at_end env) - start in
                   case log_metric (first_write env) (db s1) url method' elapsed code 1 None of
                     Inr d \<Rightarrow> (s1\<lparr>db := d, logged := logged s1 @ [Info url code elapsed]\<rparr>, None)
                   | Inl e \<Rightarrow>
                       except_block e (at_handler env) (second_write env) start url method' s1)
              | Raises m \<Rightarrow>
                  except_block (RequestException m) (at_end env) (first_write env)
                    start url method' s1))"

text \<open>\<^verbatim>\<open>for api in API_ENDPOINTS\<close>: one cycle. \<open>envs i\<close> is what the \<open>i\<close>-th check of the
  cycle reads; the checks are numbered from \<open>k\<close>.\<close>

fun cycle ::
  "(nat \<Rightarrow> check_env) \<Rightarrow> nat \<Rightarrow> api list \<Rightarrow> monitor_state \<Rightarrow> monitor_state \<times> py_exception option" where
  "cycle envs k [] s = (s, None)"
| "cycle envs k (api # apis) s =
     (case check (envs k) api s of
        (s', Some e) \<Rightarrow> (s', Some e)
      | (s', None) \<Rightarrow> cycle envs (Suc k) apis s')"

text \<open>\<^verbatim>\<open>while True\<close>, run for \<open>n\<close> cycles: the loop has no exit of its own, so the only way
  out is an exception. \<open>envs c i\<close> is what check \<open>i\<close> of cycle \<open>c\<close> reads; the cycles are
  numbered from \<open>c\<close>.\<close>

fun monitor_api ::
  "nat \<Rightarrow> (nat \<Rightarrow> nat \<Rightarrow> check_env) \<Rightarrow> nat \<Rightarrow> api list \<Rightarrow> monitor_state
     \<Rightarrow> monitor_state \<times> py_exception option" where
  "monitor_api 0 envs c apis s = (s, None)"
| "monitor_api (Suc n) envs c apis s =
     (case cycle (envs c) 0 apis s of
        (s', Some e) \<Rightarrow> (s', Some e)
      | (s', None) \<Rightarrow> monitor_api n envs (Suc c) apis s')"

subsection \<open>The dashboard queries\<close>

text \<open>\<^verbatim>\<open>SELECT * FROM metrics ORDER BY id DESC LIMIT n\<close>; the dashboard has \<open>n = 50\<close>.\<close>

definition select_recent :: "nat \<Rightarrow> metric_row list \<Rightarrow> metric_row list" where
  "select_recent n rows = take n (rev (sort_key row_id rows))"

text \<open>A row of the \<^verbatim>\<open>GROUP BY endpoint\<close> query. \<^verbatim>\<open>AVG\<close> is NULL when it has no value to
  average.\<close>

record summary_row =
  s_endpoint :: string
  total' :: nat
  successes :: nat
  failures :: nat
  avg_time :: "real option"

definition aggregate :: "string \<Rightarrow> metric_row list \<Rightarrow> summary_row" where
  "aggregate u rows =
     (let g = filter (\<lambda>r. endpoint r = u) rows in
      \<lparr>s_endpoint = u,
       total' = length g,
       successes = sum_list (map (\<lambda>r. if success r = 1 then 1 else 0) g),
       failures = sum_list (map (\<lambda>r. if success r = 0 then 1 else 0) g),
       avg_time = (if g = [] then None
                   else Some (sum_list (map response_time g) / real (length g)))\<rparr>)"

text \<open>One row for each endpoint that occurs in the table (SQL leaves the order of the
  groups open; here they come in the order of their first row).\<close>

definition select_summary :: "metric_row list \<Rightarrow> summary_row list" where
  "select_summary rows = map (\<lambda>u. aggregate u rows) (remdups (map endpoint rows))"

text \<open>The route \<^verbatim>\<open>/\<close>: the two result sets handed to the template.\<close>

definition dashboard ::
  "sqlite_outcome \<Rightarrow> database \<Rightarrow> py_exception + (metric_row list \<times> summary_row list)" where
  "dashboard io d =
     (case io of
        Fails m \<Rightarrow> Inl (OperationalError m)
      | Completes \<Rightarrow>
          (case metrics d of
             None \<Rightarrow> Inl (OperationalError ''no such table: metrics'')
           | Some rows \<Rightarrow> Inr (select_recent 50 rows, select_summary rows)))"

subsection \<open>Reading a database, repeated inserts\<close>

text \<open>The rows a database holds (none when the table does not exist).\<close>

definition stored :: "database \<Rightarrow> metric_row list" where
  "stored d = (case metrics d of None \<Rightarrow> [] | Some rows \<Rightarrow> rows)"

text \<open>The columns of a row that the caller of \<^verbatim>\<open>log_metric\<close> supplies.\<close>

type_synonym metric_args = "string \<times> string \<times> real \<times> int \<times> int \<times> string option"

definition args_of :: "metric_row \<Rightarrow> metric_args" where
  "args_of r =
     (endpoint r, http_method r, response_time r, status_code r, success r, error_message r)"

text \<open>A sequence of calls of \<^verbatim>\<open>log_metric\<close>, one after the other, up to the first that
  raises.\<close>

fun log_metrics :: "(write_env \<times> metric_args) list \<Rightarrow> database \<Rightarrow> py_exception + database" where
  "log_metrics [] d = Inr d"
| "log_metrics ((w, u, m, t, c, ok, msg) # calls) d =
     (case log_metric w d u m t c ok msg of
        Inl e \<Rightarrow> Inl e
      | Inr d' \<Rightarrow> log_metrics calls d')"

text \<open>The call of \<^verbatim>\<open>log_metric\<close> that writes the record of a check, when one is written: the
  first one if it completes, else the one in the handler.\<close>

definition recording_write :: "check_env \<Rightarrow> write_env" where
  "recording_write env =
     (if sqlite (first_write env) = Completes then first_write env else second_write env)"

subsection \<open>Concrete scenarios\<close>

text \<open>The clock \<open>n\<close> seconds after 2024-01-01 12:00:00 UTC (for \<open>n < 60\<close>).\<close>

definition noon_plus :: "nat \<Rightarrow> clock_reading" where
  "noon_plus n =
     \<lparr>epoch = 1704110400 + real n,
      utc = \<lparr>year = 2024, month = 1, day = 1, hour = 12, minute = 0, second = n,
             microsecond = 0\<rparr>\<rparr>"

definition write_ok :: "nat \<Rightarrow> write_env" where
  "write_ok n = \<lparr>now = noon_plus n, sqlite = Completes\<rparr>"

definition write_locked :: "nat \<Rightarrow> write_env" where
  "write_locked n = \<lparr>now = noon_plus n, sqlite = Fails ''database is locked''\<rparr>"

text \<open>A response with status \<open>code\<close> after one second; every write completes.\<close>

definition env_response :: "int \<Rightarrow> check_env" where
  "env_response code =
     \<lparr>at_start = noon_plus 0, request = Response code, at_end = noon_plus 1,
      first_write = write_ok 1, at_handler = noon_plus 1, second_write = write_ok 1\<rparr>"

text \<open>The request times out after five seconds; the write completes.\<close>

definition env_timeout :: check_env where
  "env_timeout =
     \<lparr>at_start = noon_plus 0, request = Raises ''Read timed out. (read timeout=5)'',
      at_end = noon_plus 5, first_write = write_ok 5, at_handler = noon_plus 5,
      second_write = write_ok 5\<rparr>"

text \<open>The request times out and the write of the failure record raises.\<close>

definition env_timeout_locked :: check_env where
  "env_timeout_locked = env_timeout\<lparr>first_write := write_locked 5\<rparr>"


text \<open>A response with status 200, a first write that raises, a second one that completes.\<close>

definition env_locked_once :: check_env where
  "env_locked_once =
     \<lparr>at_start = noon_plus 0, request = Response 200, at_end = noon_plus 1,
      first_write = write_locked 1, at_handler = noon_plus 2, second_write = write_ok 2\<rparr>"

text \<open>A response with status 200, while the system clock is set back five seconds.\<close>

definition env_clock_set_back :: check_env where
  "env_clock_set_back =
     \<lparr>at_start = noon_plus 10, request = Response 200, at_end = noon_plus 5,
      first_write = write_ok 5, at_handler = noon_plus 5, second_write = write_ok 5\<rparr>"

definition api_a :: api where
  "api_a = [(''url'', ''http://a.test/''), (''method'', ''get'')]"

definition api_b :: api where
  "api_b = [(''url'', ''http://b.test/'')]"

definition api_p :: api where
  "api_p = [(''url'', ''http://p.test/''), (''method'', ''Post'')]"

definition no_table :: database where
  "no_table = \<lparr>metrics = None, sqlite_sequence = 0\<rparr>"

definition empty_table :: database where
  "empty_table = \<lparr>metrics = Some [], sqlite_sequence = 0\<rparr>"

definition idle :: monitor_state where
  "idle = \<lparr>db = empty_table, logged = [], sent = []\<rparr>"

text \<open>Four rows of one endpoint: three successes of 0.1, 0.2 and 0.3 seconds and one
  failure of one second.\<close>

definition row_of :: "nat \<Rightarrow> real \<Rightarrow> int \<Rightarrow> metric_row" where
  "row_of i t ok =
     \<lparr>row_id = i, timestamp = ''2024-01-01T12:00:00'', endpoint = ''http://a.test/'',
      http_method = ''GET'', response_time = t, status_code = (if ok = 1 then 200 else - 1),
      success = ok, error_message = (if ok = 1 then None else Some ''timed out'')\<rparr>"

definition four_rows :: "metric_row list" where
  "four_rows = [row_of 1 (1 / 10) 1, row_of 2 (2 / 10) 1, row_of 3 (3 / 10) 1, row_of 4 1 0]"

text \<open>The same table in a database file.\<close>

definition four_rows_db :: database where
  "four_rows_db = \<lparr>metrics = Some four_rows, sqlite_sequence = 4\<rparr>"

text \<open>A cycle over two endpoints: what the first check reads, then what every later check
  reads.\<close>

definition first_then :: "check_env \<Rightarrow> check_env \<Rightarrow> nat \<Rightarrow> check_env" where
  "first_then e e' i = (if i = 0 then e else e')"

text \<open>Three inserts, the clock running backwards from one to the next.\<close>

definition three_calls :: "(write_env \<times> metric_args) list" where
  "three_calls =
     [(write_ok 30, ''http://a.test/'', ''GET'', 1 / 4, 200, 1, None),
      (write_ok 20, ''http://b.test/'', ''GET'', 5, - 1, 0, Some ''timed out''),
      (write_ok 10, ''http://a.test/'', ''GET'', 1 / 2, 404, 1, None)]"

section \<open>Properties\<close>

subsection \<open>Facts about single calls\<close>

lemma log_metric_completes:
  "sqlite w = Completes \<Longrightarrow> metrics d = Some rows \<Longrightarrow>
   log_metric w d u m t c ok msg =
     Inr (d\<lparr>metrics := Some (rows @
            [\<lparr>row_id = next_id (sqlite_sequence d) rows, timestamp = isoformat (utc (now w)),
              endpoint = u, http_method = m, response_time = t, status_code = c,
              success = ok, error_message = msg\<rparr>]),
          sqlite_sequence := next_id (sqlite_sequence d) rows\<rparr>)"
  by (simp add: log_metric_def Let_def)

lemma log_metric_fails:
  "sqlite w = Fails x \<Longrightarrow> log_metric w d u m t c ok msg = Inl (OperationalError x)"
  by (simp add: log_metric_def)

lemma upper_examples: "upper ''get'' = ''GET''" "upper ''GET'' = ''GET''"
  by code_simp+

lemma upper_char_table:
  "\<forall>c. upper_char c =
     (case map_of (zip ''abcdefghijklmnopqrstuvwxyz'' ''ABCDEFGHIJKLMNOPQRSTUVWXYZ'') c of
        None \<Rightarrow> c | Some C \<Rightarrow> C)"
  by code_simp

lemma upper_table:
  "upper m =
     map (\<lambda>c. case map_of (zip ''abcdefghijklmnopqrstuvwxyz'' ''ABCDEFGHIJKLMNOPQRSTUVWXYZ'') c of
                 None \<Rightarrow> c | Some C \<Rightarrow> C) m"
  unfolding upper_def by (rule map_cong [OF refl]) (rule upper_char_table [rule_format])

lemma check_first_write_completes:
  assumes "map_of api ''url'' = Some url"
    and "sqlite (first_write env) = Completes"
    and "metrics (db s) = Some rows"
  shows "snd (check env api s) = None
    \<and> (\<exists>r. metrics (db (fst (check env api s))) = Some (rows @ [r])
          \<and> endpoint r = url
          \<and> response_time r = epoch (at_end env) - epoch (at_start env)
          \<and> (success r = 1 \<longleftrightarrow> (\<exists>c. request env = Response c)))"
  using assms
  by (cases "request env")
     (simp_all add: check_def except_block_def Let_def log_metric_completes)

subsection \<open>Transport failures\<close>




subsection \<open>Responses\<close>

text \<open>
  Claim C5, as the spec has it: whenever the request returns a response, the record written
  for the check has \<open>success = 1\<close>, the received status and no message. The insert of that
  record sits inside the \<^verbatim>\<open>try\<close> block: when it raises, the handler writes a failure
  record for a request that returned status 200.
\<close>

theorem response_with_failed_write_recorded_as_failure:
  "request env_locked_once = Response 200
   \<and> check env_locked_once api_a idle =
     (\<lparr>db = \<lparr>metrics = Some [\<lparr>row_id = 1, timestamp = ''2024-01-01T12:00:02'',
                                endpoint = ''http://a.test/'', http_method = ''GET'',
                                response_time = 2, status_code = - 1, success = 0,
                                error_message = Some ''database is locked''\<rparr>],
              sqlite_sequence = 1\<rparr>,
       logged = [Error ''http://a.test/'' ''database is locked''],
       sent = [(''GET'', ''http://a.test/'')]\<rparr>, None)"
  by code_simp

text \<open>
  Claim C5, amended: when the request returns a response and the insert of its record
  completes, the check appends exactly one record, with \<open>success = 1\<close>, the received status
  code whatever its value, and a NULL message.
\<close>

theorem response_recorded_as_success:
  assumes "map_of api ''url'' = Some url"
    and "request env = Response code"
    and "sqlite (first_write env) = Completes"
    and "metrics (db s) = Some rows"
  shows "snd (check env api s) = None
    \<and> (\<exists>r. metrics (db (fst (check env api s))) = Some (rows @ [r])
          \<and> endpoint r = url \<and> success r = 1 \<and> status_code r = code
          \<and> error_message r = None)"
  using assms by (simp add: check_def Let_def log_metric_completes)

theorem response_recorded_as_success_witness:
  "snd (check (env_response 404) api_b idle) = None
    \<and> (\<exists>r. metrics (db (fst (check (env_response 404) api_b idle))) = Some ([] @ [r])
          \<and> endpoint r = ''http://b.test/'' \<and> success r = 1 \<and> status_code r = 404
          \<and> error_message r = None)"
  using response_recorded_as_success [of api_b "''http://b.test/''" "env_response 404" 404
      idle "[]"]
  by (simp add: api_b_def env_response_def write_ok_def idle_def empty_table_def)

subsection \<open>A storage exception inside the \<^verbatim>\<open>try\<close> block\<close>

text \<open>
  Claim C9: when the request returns a response and the insert of the success record raises,
  the handler runs as for a transport failure. If its own insert completes, the record
  written has \<open>success = 0\<close>, status \<open>-1\<close> and the text of the storage exception as message;
  the received status code has no influence on the outcome, so it is stored nowhere.
\<close>

theorem storage_error_recorded_as_failure:
  assumes "map_of api ''url'' = Some url"
    and "request env = Response code"
    and "sqlite (first_write env) = Fails text"
    and "sqlite (second_write env) = Completes"
    and "metrics (db s) = Some rows"
  shows "snd (check env api s) = None
    \<and> (\<exists>r. metrics (db (fst (check env api s))) = Some (rows @ [r])
          \<and> success r = 0 \<and> status_code r = - 1 \<and> error_message r = Some text)
    \<and> logged (fst (check env api s)) = logged s @ [Error url text]
    \<and> check (env\<lparr>request := Response code'\<rparr>) api s = check env api s"
  using assms
  by (simp add: check_def except_block_def Let_def log_metric_fails log_metric_completes)

theorem storage_error_recorded_as_failure_witness:
  "snd (check env_locked_once api_a idle) = None
    \<and> (\<exists>r. metrics (db (fst (check env_locked_once api_a idle))) = Some ([] @ [r])
          \<and> success r = 0 \<and> status_code r = - 1
          \<and> error_message r = Some ''database is locked'')
    \<and> logged (fst (check env_locked_once api_a idle)) =
        logged idle @ [Error ''http://a.test/'' ''database is locked'']
    \<and> check (env_locked_once\<lparr>request := Response 503\<rparr>) api_a idle =
        check env_locked_once api_a idle"
  using storage_error_recorded_as_failure [of api_a "''http://a.test/''" env_locked_once 200
      "''database is locked''" idle "[]" 503]
  by (simp add: api_a_def env_locked_once_def write_locked_def write_ok_def idle_def
      empty_table_def)

subsection \<open>The method of a probe\<close>

text \<open>
  Claim C10: a check issues its request with one method string, and every record it writes
  carries the same string. For an entry with the key \<^verbatim>\<open>method\<close> (an ASCII string) it is the
  configured string in upper case: each letter \<^verbatim>\<open>a\<close>..\<^verbatim>\<open>z\<close> replaced by the letter
  \<^verbatim>\<open>A\<close>..\<^verbatim>\<open>Z\<close> at the same place of the alphabet, every other character kept. For an entry
  without the key it is \<^verbatim>\<open>GET\<close>.
\<close>

theorem method_upper_default_get:
  assumes "map_of api ''url'' = Some url"
    and "metrics (db s) = Some rows"
  shows "\<exists>M. sent (fst (check env api s)) = sent s @ [(M, url)]
    \<and> (metrics (db (fst (check env api s))) = Some rows
        \<or> (\<exists>r. metrics (db (fst (check env api s))) = Some (rows @ [r]) \<and> http_method r = M))
    \<and> (\<forall>m. map_of api ''method'' = Some m \<longrightarrow> (\<forall>c\<in>set m. of_char c < (128::nat)) \<longrightarrow>
          M = map (\<lambda>c. case map_of (zip ''abcdefghijklmnopqrstuvwxyz''
                                         ''ABCDEFGHIJKLMNOPQRSTUVWXYZ'') c of
                         None \<Rightarrow> c | Some C \<Rightarrow> C) m)
    \<and> (map_of api ''method'' = None \<longrightarrow> M = ''GET'')"
proof -
  define M where "M = upper (case map_of api ''method'' of None \<Rightarrow> ''GET'' | Some m \<Rightarrow> m)"
  have a: "sent (fst (check env api s)) = sent s @ [(M, url)]"
    using assms(1) unfolding M_def
    by (simp add: check_def except_block_def Let_def split: http_outcome.splits sum.splits)
  have b: "metrics (db (fst (check env api s))) = Some rows
        \<or> (\<exists>r. metrics (db (fst (check env api s))) = Some (rows @ [r]) \<and> http_method r = M)"
    using assms unfolding M_def
    by (cases "request env"; cases "sqlite (first_write env)"; cases "sqlite (second_write env)")
       (simp_all add: check_def except_block_def Let_def log_metric_completes log_metric_fails)
  have c: "M = map (\<lambda>c. case map_of (zip ''abcdefghijklmnopqrstuvwxyz''
                                         ''ABCDEFGHIJKLMNOPQRSTUVWXYZ'') c of
                         None \<Rightarrow> c | Some C \<Rightarrow> C) m"
    if "map_of api ''method'' = Some m" for m
    unfolding M_def that option.case by (rule upper_table)
  have d: "M = ''GET''" if "map_of api ''method'' = None"
    unfolding M_def that option.case by (rule upper_examples(2))
  show ?thesis
  proof (intro exI [of _ M] conjI allI impI)
    show "sent (fst (check env api s)) = sent s @ [(M, url)]"
      by (rule a)
    show "metrics (db (fst (check env api s))) = Some rows
        \<or> (\<exists>r. metrics (db (fst (check env api s))) = Some (rows @ [r]) \<and> http_method r = M)"
      by (rule b)
    show "M = map (\<lambda>c. case map_of (zip ''abcdefghijklmnopqrstuvwxyz''
                                         ''ABCDEFGHIJKLMNOPQRSTUVWXYZ'') c of
                         None \<Rightarrow> c | Some C \<Rightarrow> C) m"
      if "map_of api ''method'' = Some m" for m
      using that by (rule c)
    show "M = ''GET''" if "map_of api ''method'' = None"
      using that by (rule d)
  qed
qed

theorem method_upper_default_get_witness:
  "(\<exists>M. sent (fst (check (env_response 200) api_p idle)) = sent idle @ [(M, ''http://p.test/'')]
        \<and> (\<exists>r. metrics (db (fst (check (env_response 200) api_p idle))) = Some ([] @ [r])
              \<and> http_method r = M)
        \<and> M = ''POST'')
   \<and> (\<exists>M. sent (fst (check env_timeout api_b idle)) = sent idle @ [(M, ''http://b.test/'')]
        \<and> (\<exists>r. metrics (db (fst (check env_timeout api_b idle))) = Some ([] @ [r])
              \<and> http_method r = M)
        \<and> M = ''GET'')"
proof -
  have m: "metrics (db idle) = Some []"
    by (simp add: idle_def empty_table_def)
  have up: "map_of api_p ''url'' = Some ''http://p.test/''"
    and pm: "map_of api_p ''method'' = Some ''Post''"
    by (simp_all add: api_p_def)
  have ub: "map_of api_b ''url'' = Some ''http://b.test/''"
    and bm: "map_of api_b ''method'' = None"
    by (simp_all add: api_b_def)
  have ascii: "\<forall>c\<in>set ''Post''. of_char c < (128::nat)"
    by simp
  have tbl: "map (\<lambda>c. case map_of (zip ''abcdefghijklmnopqrstuvwxyz''
                                         ''ABCDEFGHIJKLMNOPQRSTUVWXYZ'') c of
                         None \<Rightarrow> c | Some C \<Rightarrow> C) ''Post'' = ''POST''"
    by code_simp
  have wp: "metrics (db (fst (check (env_response 200) api_p idle))) \<noteq> Some []"
    and wb: "metrics (db (fst (check env_timeout api_b idle))) \<noteq> Some []"
    by code_simp+
  from method_upper_default_get [OF up m, of "env_response 200"] obtain P where
    P: "sent (fst (check (env_response 200) api_p idle)) = sent idle @ [(P, ''http://p.test/'')]
    \<and> (metrics (db (fst (check (env_response 200) api_p idle))) = Some []
        \<or> (\<exists>r. metrics (db (fst (check (env_response 200) api_p idle))) = Some ([] @ [r])
              \<and> http_method r = P))
    \<and> (\<forall>m. map_of api_p ''method'' = Some m \<longrightarrow> (\<forall>c\<in>set m. of_char c < (128::nat)) \<longrightarrow>
          P = map (\<lambda>c. case map_of (zip ''abcdefghijklmnopqrstuvwxyz''
                                         ''ABCDEFGHIJKLMNOPQRSTUVWXYZ'') c of
                         None \<Rightarrow> c | Some C \<Rightarrow> C) m)
    \<and> (map_of api_p ''method'' = None \<longrightarrow> P = ''GET'')" ..
  from P [THEN conjunct2, THEN conjunct2, THEN conjunct1, THEN spec, THEN mp, OF pm, THEN mp,
      OF ascii]
  have P3: "P = ''POST''"
    unfolding tbl .
  from P [THEN conjunct2, THEN conjunct1] wp
  have P2: "\<exists>r. metrics (db (fst (check (env_response 200) api_p idle))) = Some ([] @ [r])
              \<and> http_method r = P"
    by blast
  from method_upper_default_get [OF ub m, of env_timeout] obtain G where
    G: "sent (fst (check env_timeout api_b idle)) = sent idle @ [(G, ''http://b.test/'')]
    \<and> (metrics (db (fst (check env_timeout api_b idle))) = Some []
        \<or> (\<exists>r. metrics (db (fst (check env_timeout api_b idle))) = Some ([] @ [r])
              \<and> http_method r = G))
    \<and> (\<forall>m. map_of api_b ''method'' = Some m \<longrightarrow> (\<forall>c\<in>set m. of_char c < (128::nat)) \<longrightarrow>
          G = map (\<lambda>c. case map_of (zip ''abcdefghijklmnopqrstuvwxyz''
                                         ''ABCDEFGHIJKLMNOPQRSTUVWXYZ'') c of
                         None \<Rightarrow> c | Some C \<Rightarrow> C) m)
    \<and> (map_of api_b ''method'' = None \<longrightarrow> G = ''GET'')" ..
  from G [THEN conjunct2, THEN conjunct2, THEN conjunct2, THEN mp, OF bm]
  have G3: "G = ''GET''" .
  from G [THEN conjunct2, THEN conjunct1] wb
  have G2: "\<exists>r. metrics (db (fst (check env_timeout api_b idle))) = Some ([] @ [r])
              \<and> http_method r = G"
    by blast
  from P [THEN conjunct1] P2 P3 G [THEN conjunct1] G2 G3 show ?thesis
    by (intro conjI exI [of _ P] exI [of _ G])
qed

subsection \<open>The timestamp of a record\<close>

lemma length_zero_padded: "length (zero_padded w n) = w"
  by (induction w arbitrary: n) simp_all

lemma digit_chars: "\<forall>j\<in>set [0..<10]. char_of (48 + j) \<in> set ''0123456789''"
  by code_simp

lemma digit_char: "char_of (48 + n mod 10 :: nat) \<in> set ''0123456789''"
proof -
  have "n mod 10 \<in> set [0..<10]" by simp
  with digit_chars show ?thesis by blast
qed

lemma digits_zero_padded: "c \<in> set (zero_padded w n) \<Longrightarrow> c \<in> set ''0123456789''"
proof (induction w arbitrary: n)
  case 0
  then show ?case by simp
next
  case (Suc w)
  from Suc.prems have "c \<in> set (zero_padded w (n div 10)) \<or> c = char_of (48 + n mod 10)"
    by auto
  then show ?case
  proof
    assume "c \<in> set (zero_padded w (n div 10))"
    then show ?thesis by (rule Suc.IH)
  next
    assume "c = char_of (48 + n mod 10)"
    then show ?thesis by (simp only: digit_char)
  qed
qed

lemma decimal_value_snoc:
  "decimal_value (ds @ [c]) = 10 * decimal_value ds + (of_char c - 48)"
  by (simp add: decimal_value_def)

lemma value_zero_padded: "n < 10 ^ w \<Longrightarrow> decimal_value (zero_padded w n) = n"
proof (induction w arbitrary: n)
  case 0
  then show ?case by (simp add: decimal_value_def)
next
  case (Suc w)
  from Suc.prems have "n div 10 < 10 ^ w"
    by (simp add: less_mult_imp_div_less mult.commute)
  then have "decimal_value (zero_padded w (n div 10)) = n div 10"
    by (rule Suc.IH)
  moreover have "(of_char (char_of (48 + n mod 10 :: nat)) :: nat) = 48 + n mod 10"
  proof -
    have "48 + n mod 10 < (256::nat)"
      using mod_less_divisor [of 10 n] by linarith
    then show ?thesis by simp
  qed
  ultimately show ?case
    by (simp add: decimal_value_snoc)
qed

lemma zero_padded_decimal: "n < 10 ^ w \<Longrightarrow> is_decimal w n (zero_padded w n)"
  unfolding is_decimal_def
  using length_zero_padded [of w n] digits_zero_padded [of _ w n] value_zero_padded [of n w]
  by (intro conjI subsetI)

lemma isoformat_fields:
  assumes "valid_datetime t"
  shows "\<exists>yy mo dd hh mi ss ff.
      isoformat t = yy @ ''-'' @ mo @ ''-'' @ dd @ ''T'' @ hh @ '':'' @ mi @ '':'' @ ss @ ff
      \<and> is_decimal 4 (year t) yy \<and> is_decimal 2 (month t) mo \<and> is_decimal 2 (day t) dd
      \<and> is_decimal 2 (hour t) hh \<and> is_decimal 2 (minute t) mi \<and> is_decimal 2 (second t) ss
      \<and> (if microsecond t = 0 then ff = []
          else \<exists>us. ff = ''.'' @ us \<and> is_decimal 6 (microsecond t) us)"
proof -
  from assms have b: "year t < 10 ^ 4" "month t < 10 ^ 2" "day t < 10 ^ 2" "hour t < 10 ^ 2"
    "minute t < 10 ^ 2" "second t < 10 ^ 2" "microsecond t < 10 ^ 6"
    by (simp_all add: valid_datetime_def)
  have d: "is_decimal 4 (year t) (zero_padded 4 (year t))"
    "is_decimal 2 (month t) (zero_padded 2 (month t))"
    "is_decimal 2 (day t) (zero_padded 2 (day t))"
    "is_decimal 2 (hour t) (zero_padded 2 (hour t))"
    "is_decimal 2 (minute t) (zero_padded 2 (minute t))"
    "is_decimal 2 (second t) (zero_padded 2 (second t))"
    "is_decimal 6 (microsecond t) (zero_padded 6 (microsecond t))"
    by (rule b [THEN zero_padded_decimal])+
  let ?ff = "if microsecond t = 0 then [] else ''.'' @ zero_padded 6 (microsecond t)"
  have i: "isoformat t = zero_padded 4 (year t) @ ''-'' @ zero_padded 2 (month t) @ ''-''
      @ zero_padded 2 (day t) @ ''T'' @ zero_padded 2 (hour t) @ '':''
      @ zero_padded 2 (minute t) @ '':'' @ zero_padded 2 (second t) @ ?ff"
    unfolding isoformat_def ..
  have f: "if microsecond t = 0 then ?ff = []
          else \<exists>us. ?ff = ''.'' @ us \<and> is_decimal 6 (microsecond t) us"
    using d(7) by (cases "microsecond t = 0") simp_all
  from i d(1-6) f show ?thesis
    by (intro exI conjI)
qed

text \<open>
  Claim C7, as the spec has it: the timestamp of a record is the instant at which the check
  started. \<^verbatim>\<open>log_metric\<close> reads \<^verbatim>\<open>datetime.utcnow()\<close> itself, when it builds the row, after
  the request has returned or raised: a check that starts at 12:00:00 and times out five
  seconds later is stamped 12:00:05.
\<close>

theorem timestamp_is_later_than_check_start:
  "isoformat (utc (at_start env_timeout)) = ''2024-01-01T12:00:00''
   \<and> map timestamp (stored (db (fst (check env_timeout api_a idle)))) = [''2024-01-01T12:00:05'']"
  by code_simp

text \<open>
  Claim C7, amended: the timestamp of a record is the UTC clock reading taken inside the
  call of \<^verbatim>\<open>log_metric\<close> that writes it, in the form \<^verbatim>\<open>YYYY-MM-DDTHH:MM:SS\<close>, followed by
  \<^verbatim>\<open>.ffffff\<close> when the microseconds are not zero: each field of the reading as a decimal
  numeral of that many digits.
\<close>

theorem timestamp_is_time_of_insert:
  assumes "map_of api ''url'' = Some url"
    and "metrics (db s) = Some rows"
    and "metrics (db (fst (check env api s))) = Some (rows @ [r])"
    and "t = utc (now (recording_write env))"
    and "valid_datetime t"
  shows "\<exists>yy mo dd hh mi ss ff.
      timestamp r = yy @ ''-'' @ mo @ ''-'' @ dd @ ''T'' @ hh @ '':'' @ mi @ '':'' @ ss @ ff
      \<and> is_decimal 4 (year t) yy \<and> is_decimal 2 (month t) mo \<and> is_decimal 2 (day t) dd
      \<and> is_decimal 2 (hour t) hh \<and> is_decimal 2 (minute t) mi \<and> is_decimal 2 (second t) ss
      \<and> (if microsecond t = 0 then ff = []
          else \<exists>us. ff = ''.'' @ us \<and> is_decimal 6 (microsecond t) us)"
proof -
  have "timestamp r = isoformat (utc (now (recording_write env)))"
    using assms(1-3)
    by (cases "request env"; cases "sqlite (first_write env)";
        cases "sqlite (second_write env)")
       (auto simp: check_def except_block_def Let_def log_metric_def recording_write_def)
  with assms(4) have "timestamp r = isoformat t"
    by simp
  with isoformat_fields [OF assms(5)] show ?thesis
    by simp
qed

theorem timestamp_is_time_of_insert_witness:
  "timestamp (hd (stored (db (fst (check env_timeout api_a idle))))) = ''2024-01-01T12:00:05''
   \<and> utc (now (recording_write env_timeout)) = utc (noon_plus 5)
   \<and> valid_datetime (utc (noon_plus 5))
   \<and> (\<exists>yy mo dd hh mi ss ff.
        timestamp (hd (stored (db (fst (check env_timeout api_a idle))))) =
          yy @ ''-'' @ mo @ ''-'' @ dd @ ''T'' @ hh @ '':'' @ mi @ '':'' @ ss @ ff
        \<and> is_decimal 4 2024 yy \<and> is_decimal 2 1 mo \<and> is_decimal 2 1 dd
        \<and> is_decimal 2 12 hh \<and> is_decimal 2 0 mi \<and> is_decimal 2 5 ss \<and> ff = [])"
proof -
  let ?r = "hd (stored (db (fst (check env_timeout api_a idle))))"
  have u: "map_of api_a ''url'' = Some ''http://a.test/''"
    by (simp add: api_a_def)
  have m: "metrics (db idle) = Some []"
    by (simp add: idle_def empty_table_def)
  have w: "metrics (db (fst (check env_timeout api_a idle))) = Some ([] @ [?r])"
    by (simp add: check_def except_block_def Let_def log_metric_def env_timeout_def
        write_ok_def api_a_def idle_def empty_table_def stored_def)
  have t: "utc (noon_plus 5) = utc (now (recording_write env_timeout))"
    by (simp add: recording_write_def env_timeout_def write_ok_def)
  have v: "valid_datetime (utc (noon_plus 5))"
    by (simp add: valid_datetime_def noon_plus_def)
  have lit: "timestamp ?r = ''2024-01-01T12:00:05''"
    by code_simp
  have f: "year (utc (noon_plus 5)) = 2024" "month (utc (noon_plus 5)) = 1"
    "day (utc (noon_plus 5)) = 1" "hour (utc (noon_plus 5)) = 12"
    "minute (utc (noon_plus 5)) = 0" "second (utc (noon_plus 5)) = 5"
    "microsecond (utc (noon_plus 5)) = 0"
    by (simp_all add: noon_plus_def)
  from timestamp_is_time_of_insert [OF u m w t v]
  have "\<exists>yy mo dd hh mi ss ff.
        timestamp ?r = yy @ ''-'' @ mo @ ''-'' @ dd @ ''T'' @ hh @ '':'' @ mi @ '':'' @ ss @ ff
        \<and> is_decimal 4 2024 yy \<and> is_decimal 2 1 mo \<and> is_decimal 2 1 dd
        \<and> is_decimal 2 12 hh \<and> is_decimal 2 0 mi \<and> is_decimal 2 5 ss \<and> ff = []"
    unfolding f if_True by simp
  with lit t [symmetric] v show ?thesis
    by (intro conjI)
qed

subsection \<open>Creating the table\<close>

text \<open>
  Claim C8: a call of \<^verbatim>\<open>init_db\<close> whose SQLite calls complete returns, and a call that
  returns leaves a table in place, with the rows and the id counter it had; on an existing
  table it changes nothing, so a second call changes nothing either. (A call that raises
  leaves the database as it was.)
\<close>

theorem init_db_keeps_records:
  "(\<exists>d'. init_db Completes d = Inr d')
   \<and> (\<forall>io d'. init_db io d = Inr d' \<longrightarrow>
         metrics d' \<noteq> None \<and> stored d' = stored d
         \<and> sqlite_sequence d' = sqlite_sequence d
         \<and> (metrics d \<noteq> None \<longrightarrow> d' = d)
         \<and> (\<forall>io' d''. init_db io' d' = Inr d'' \<longrightarrow> d'' = d'))"
  by (auto simp: init_db_def stored_def split: sqlite_outcome.splits option.splits)

theorem init_db_keeps_records_witness:
  "init_db Completes four_rows_db = Inr four_rows_db
   \<and> stored four_rows_db = four_rows
   \<and> init_db Completes no_table = Inr empty_table
   \<and> metrics empty_table \<noteq> None
   \<and> stored empty_table = stored no_table
   \<and> init_db Completes empty_table = Inr empty_table"
proof -
  have a: "init_db Completes four_rows_db = Inr four_rows_db"
    and b: "init_db Completes no_table = Inr empty_table"
    and c: "init_db Completes empty_table = Inr empty_table"
    and f: "stored four_rows_db = four_rows"
    by (simp_all add: init_db_def four_rows_db_def no_table_def empty_table_def stored_def)
  from init_db_keeps_records [of no_table, THEN conjunct2, THEN spec, THEN spec, THEN mp, OF b]
  have "metrics empty_table \<noteq> None" "stored empty_table = stored no_table"
    by simp_all
  with a b c f show ?thesis
    by simp
qed

subsection \<open>A storage exception and the rest of the cycle\<close>

lemma sent_check:
  "map_of api ''url'' = Some url \<Longrightarrow>
   sent (fst (check env api s)) =
     sent s @ [(upper (case map_of api ''method'' of None \<Rightarrow> ''GET'' | Some m \<Rightarrow> m), url)]"
  by (simp add: check_def except_block_def Let_def split: http_outcome.splits sum.splits)

lemma sent_check_prefix: "\<exists>xs. sent (fst (check env api s)) = sent s @ xs"
  by (cases "map_of api ''url''") (simp_all add: sent_check, simp add: check_def)

lemma sent_cycle_prefix: "\<exists>xs. sent (fst (cycle envs k apis s)) = sent s @ xs"
proof (induction apis arbitrary: k s)
  case Nil
  then show ?case by simp
next
  case (Cons api apis)
  obtain s' x where c: "check (envs k) api s = (s', x)"
    by (cases "check (envs k) api s")
  obtain xs where xs: "sent s' = sent s @ xs"
    using sent_check_prefix [of "envs k" api s] c by auto
  show ?case
  proof (cases x)
    case None
    obtain ys where "sent (fst (cycle envs (Suc k) apis s')) = sent s' @ ys"
      using Cons.IH by blast
    with c xs None show ?thesis by simp
  next
    case (Some e)
    with c xs show ?thesis by simp
  qed
qed

lemma cycle_probes_first:
  assumes "map_of api ''url'' = Some url"
  shows "url \<in> snd ` set (sent (fst (cycle envs k (api # apis) s)))"
proof -
  obtain s' x where c: "check (envs k) api s = (s', x)"
    by (cases "check (envs k) api s")
  have s': "url \<in> snd ` set (sent s')"
    using sent_check [OF assms, of "envs k" s] c by force
  show ?thesis
  proof (cases x)
    case None
    obtain ys where "sent (fst (cycle envs (Suc k) apis s')) = sent s' @ ys"
      using sent_cycle_prefix by blast
    with c s' None show ?thesis by auto
  next
    case (Some e)
    with c s' show ?thesis by simp
  qed
qed

lemma cycle_probes_all:
  assumes "\<forall>i<length apis. map_of (apis ! i) ''url'' \<noteq> None
              \<and> sqlite (first_write (envs (k + i))) = Completes"
    and "metrics (db s) = Some rows"
  shows "snd (cycle envs k apis s) = None
    \<and> map (\<lambda>p. Some (snd p)) (sent (fst (cycle envs k apis s)))
        = map (\<lambda>p. Some (snd p)) (sent s) @ map (\<lambda>a. map_of a ''url'') apis"
  using assms
proof (induction apis arbitrary: k s rows)
  case Nil
  then show ?case by simp
next
  case (Cons api apis)
  from Cons.prems(1) have "map_of api ''url'' \<noteq> None"
    and w: "sqlite (first_write (envs k)) = Completes"
    by auto
  then obtain url where url: "map_of api ''url'' = Some url"
    by auto
  obtain s' x where c: "check (envs k) api s = (s', x)"
    by (cases "check (envs k) api s")
  from check_first_write_completes [OF url w Cons.prems(2)] c
  obtain r where x: "x = None" and s': "metrics (db s') = Some (rows @ [r])"
    by auto
  from sent_check [OF url, of "envs k" s] c
  have sent': "map (\<lambda>p. Some (snd p)) (sent s') = map (\<lambda>p. Some (snd p)) (sent s) @ [Some url]"
    by simp
  have rest: "\<forall>i<length apis. map_of (apis ! i) ''url'' \<noteq> None
                \<and> sqlite (first_write (envs (Suc k + i))) = Completes"
  proof (intro allI impI)
    fix i assume "i < length apis"
    then have "Suc i < length (api # apis)" by simp
    from Cons.prems(1) [rule_format, OF this]
    show "map_of (apis ! i) ''url'' \<noteq> None
            \<and> sqlite (first_write (envs (Suc k + i))) = Completes"
      by simp
  qed
  have step: "cycle envs k (api # apis) s = cycle envs (Suc k) apis s'"
    using c x by simp
  from Cons.IH [OF rest s'] step sent' url show ?case
    by simp
qed

text \<open>
  Claim C2, as the spec has it: an insert that raises is caught and logged, and the cycle
  goes on with the next endpoint. Only the insert inside the \<^verbatim>\<open>try\<close> block is guarded. When
  the request of the first endpoint times out and the insert made by the handler raises, the
  exception leaves the loop: the second endpoint is never probed.
\<close>

theorem failed_write_in_handler_ends_cycle:
  "cycle (first_then env_timeout_locked (env_response 200)) 0 [api_a, api_b] idle =
     (\<lparr>db = \<lparr>metrics = Some [], sqlite_sequence = 0\<rparr>, logged = [],
       sent = [(''GET'', ''http://a.test/'')]\<rparr>,
      Some (OperationalError ''database is locked''))"
  by code_simp

text \<open>
  Claim C2, amended by the condition this run forces: when the insert that raises is the one
  inside the \<^verbatim>\<open>try\<close> block, and the handler's own insert completes, the handler catches
  the exception and logs it, and the cycle goes on with the remaining endpoints as if the
  check had ended without one: the next endpoint is probed, and when no other insert of the
  cycle raises, every endpoint of the cycle is probed, in order, and nothing leaves the loop.
\<close>

theorem failed_write_in_try_block_caught:
  assumes "map_of api ''url'' = Some url"
    and "request (envs k) = Response code"
    and "sqlite (first_write (envs k)) = Fails text"
    and "sqlite (second_write (envs k)) = Completes"
    and "metrics (db s) = Some rows"
  shows "snd (check (envs k) api s) = None
    \<and> logged (fst (check (envs k) api s)) = logged s @ [Error url text]
    \<and> cycle envs k (api # apis) s = cycle envs (Suc k) apis (fst (check (envs k) api s))
    \<and> (\<forall>api' url'. api' \<in> set (take 1 apis) \<longrightarrow> map_of api' ''url'' = Some url' \<longrightarrow>
          url' \<in> snd ` set (sent (fst (cycle envs k (api # apis) s))))
    \<and> ((\<forall>i<length apis. map_of (apis ! i) ''url'' \<noteq> None
            \<and> sqlite (first_write (envs (Suc k + i))) = Completes) \<longrightarrow>
          snd (cycle envs k (api # apis) s) = None
          \<and> map (\<lambda>p. Some (snd p)) (sent (fst (cycle envs k (api # apis) s)))
              = map (\<lambda>p. Some (snd p)) (sent s) @ map (\<lambda>a. map_of a ''url'') (api # apis))"
proof -
  have none: "snd (check (envs k) api s) = None"
    and lg: "logged (fst (check (envs k) api s)) = logged s @ [Error url text]"
    using assms
    by (simp_all add: check_def except_block_def Let_def log_metric_fails log_metric_completes)
  have step: "cycle envs k (api # apis) s = cycle envs (Suc k) apis (fst (check (envs k) api s))"
    using none by (cases "check (envs k) api s") simp
  have wr: "\<exists>r. metrics (db (fst (check (envs k) api s))) = Some (rows @ [r])"
    using assms
    by (simp add: check_def except_block_def Let_def log_metric_fails log_metric_completes)
  have all: "snd (cycle envs k (api # apis) s) = None
      \<and> map (\<lambda>p. Some (snd p)) (sent (fst (cycle envs k (api # apis) s)))
          = map (\<lambda>p. Some (snd p)) (sent s) @ map (\<lambda>a. map_of a ''url'') (api # apis)"
    if h: "\<forall>i<length apis. map_of (apis ! i) ''url'' \<noteq> None
            \<and> sqlite (first_write (envs (Suc k + i))) = Completes"
  proof -
    from wr obtain r where r: "metrics (db (fst (check (envs k) api s))) = Some (rows @ [r])" ..
    from cycle_probes_all [OF h r] step sent_check [OF assms(1), of "envs k" s] assms(1)
    show ?thesis by simp
  qed
  have nxt: "url' \<in> snd ` set (sent (fst (cycle envs k (api # apis) s)))"
    if "api' \<in> set (take 1 apis)" and "map_of api' ''url'' = Some url'" for api' url'
  proof -
    from that(1) obtain rest where "apis = api' # rest"
      by (cases apis) simp_all
    then show ?thesis
      using step cycle_probes_first [OF that(2)] by simp
  qed
  from none lg step nxt all show ?thesis by blast
qed

theorem failed_write_in_try_block_caught_witness:
  "snd (check env_locked_once api_a idle) = None
   \<and> logged (fst (check env_locked_once api_a idle)) =
       logged idle @ [Error ''http://a.test/'' ''database is locked'']
   \<and> ''http://b.test/'' \<in> snd ` set (sent (fst (cycle (first_then env_locked_once (env_response 200)) 0 [api_a, api_b] idle)))
   \<and> snd (cycle (first_then env_locked_once (env_response 200)) 0 [api_a, api_b] idle) = None
   \<and> map (\<lambda>p. Some (snd p)) (sent (fst (cycle (first_then env_locked_once (env_response 200)) 0 [api_a, api_b] idle)))
       = [Some ''http://a.test/'', Some ''http://b.test/'']"
  using failed_write_in_try_block_caught [of api_a "''http://a.test/''"
      "first_then env_locked_once (env_response 200)" 0 200 "''database is locked''" idle "[]"
      "[api_b]"]
  by (simp add: first_then_def api_a_def api_b_def env_locked_once_def write_locked_def
      write_ok_def idle_def empty_table_def check_def except_block_def Let_def log_metric_def
      env_response_def)

subsection \<open>One record for each check\<close>

text \<open>
  Claim C6, as the spec has it: every record has a response time of at least zero. The
  response time is the difference of two readings of \<^verbatim>\<open>time.time()\<close>, a wall clock: when
  the clock is set back between them, the difference is negative.
\<close>

theorem clock_set_back_gives_negative_response_time:
  "cycle (first_then env_clock_set_back env_clock_set_back) 0 [api_a] idle =
     (\<lparr>db = \<lparr>metrics = Some [\<lparr>row_id = 1, timestamp = ''2024-01-01T12:00:05'',
                                endpoint = ''http://a.test/'', http_method = ''GET'',
                                response_time = - 5, status_code = 200, success = 1,
                                error_message = None\<rparr>],
              sqlite_sequence = 1\<rparr>,
       logged = [Info ''http://a.test/'' 200 (- 5)],
       sent = [(''GET'', ''http://a.test/'')]\<rparr>, None)"
  by code_simp

text \<open>
  Claim C6, amended: in a cycle whose inserts complete, every check appends exactly one
  record, for its endpoint, whatever the outcome of its request; the response time of the
  record is the clock reading after the request minus the reading before it, which is at
  least zero when the clock has not gone back between the two.
\<close>

theorem one_record_per_check:
  assumes "\<forall>i<length apis. map_of (apis ! i) ''url'' \<noteq> None
              \<and> sqlite (first_write (envs (k + i))) = Completes"
    and "metrics (db s) = Some rows"
  shows "snd (cycle envs k apis s) = None
    \<and> (\<exists>new. metrics (db (fst (cycle envs k apis s))) = Some (rows @ new)
          \<and> length new = length apis
          \<and> (\<forall>i<length apis.
                map_of (apis ! i) ''url'' = Some (endpoint (new ! i))
                \<and> response_time (new ! i) =
                    epoch (at_end (envs (k + i))) - epoch (at_start (envs (k + i)))
                \<and> (epoch (at_start (envs (k + i))) \<le> epoch (at_end (envs (k + i)))
                     \<longrightarrow> 0 \<le> response_time (new ! i))))"
  using assms
proof (induction apis arbitrary: k s rows)
  case Nil
  then show ?case by simp
next
  case (Cons api apis)
  from Cons.prems(1) have "map_of api ''url'' \<noteq> None"
    and w: "sqlite (first_write (envs k)) = Completes"
    by auto
  then obtain url where url: "map_of api ''url'' = Some url"
    by auto
  obtain s' x where c: "check (envs k) api s = (s', x)"
    by (cases "check (envs k) api s")
  from check_first_write_completes [OF url w Cons.prems(2)] c
  obtain r where x: "x = None" and s': "metrics (db s') = Some (rows @ [r])"
    and r: "endpoint r = url"
      "response_time r = epoch (at_end (envs k)) - epoch (at_start (envs k))"
    by auto
  have rest: "\<forall>i<length apis. map_of (apis ! i) ''url'' \<noteq> None
                \<and> sqlite (first_write (envs (Suc k + i))) = Completes"
  proof (intro allI impI)
    fix i assume "i < length apis"
    then have "Suc i < length (api # apis)" by simp
    from Cons.prems(1) [rule_format, OF this] 
    show "map_of (apis ! i) ''url'' \<noteq> None
            \<and> sqlite (first_write (envs (Suc k + i))) = Completes"
      by simp
  qed
  from Cons.IH [OF rest s']
  obtain new where n0: "snd (cycle envs (Suc k) apis s') = None"
    and n1: "metrics (db (fst (cycle envs (Suc k) apis s'))) = Some ((rows @ [r]) @ new)"
    and n2: "length new = length apis"
    and n3: "\<forall>i<length apis.
                map_of (apis ! i) ''url'' = Some (endpoint (new ! i))
                \<and> response_time (new ! i) =
                    epoch (at_end (envs (Suc k + i))) - epoch (at_start (envs (Suc k + i)))"
    by blast
  have step: "cycle envs k (api # apis) s = cycle envs (Suc k) apis s'"
    using c x by simp
  have each: "map_of ((api # apis) ! i) ''url'' = Some (endpoint ((r # new) ! i))
      \<and> response_time ((r # new) ! i) =
          epoch (at_end (envs (k + i))) - epoch (at_start (envs (k + i)))
      \<and> (epoch (at_start (envs (k + i))) \<le> epoch (at_end (envs (k + i)))
           \<longrightarrow> 0 \<le> response_time ((r # new) ! i))"
    if "i < length (api # apis)" for i
  proof (cases i)
    case 0
    with url r show ?thesis by simp
  next
    case (Suc j)
    with that have "j < length apis" by simp
    with n3 Suc show ?thesis by simp
  qed
  have "metrics (db (fst (cycle envs k (api # apis) s))) = Some (rows @ (r # new))"
    using step n1 by simp
  moreover have "length (r # new) = length (api # apis)"
    using n2 by simp
  ultimately show ?case
    using step n0 each by metis
qed

theorem one_record_per_check_witness:
  "snd (cycle (first_then env_timeout (env_response 200)) 0 [api_a, api_b] idle) = None
   \<and> (\<exists>new. metrics (db (fst (cycle (first_then env_timeout (env_response 200)) 0
                                   [api_a, api_b] idle))) = Some ([] @ new)
          \<and> length new = 2
          \<and> endpoint (new ! 0) = ''http://a.test/'' \<and> endpoint (new ! 1) = ''http://b.test/''
          \<and> response_time (new ! 0) = 5 \<and> response_time (new ! 1) = 1
          \<and> 0 \<le> response_time (new ! 0) \<and> 0 \<le> response_time (new ! 1))"
proof -
  let ?envs = "first_then env_timeout (env_response 200)"
  have h: "\<forall>i<length [api_a, api_b]. map_of ([api_a, api_b] ! i) ''url'' \<noteq> None
              \<and> sqlite (first_write (?envs (0 + i))) = Completes"
    by (auto simp: less_Suc_eq nth_Cons' first_then_def api_a_def api_b_def env_timeout_def
        env_response_def write_ok_def)
  have m: "metrics (db idle) = Some []"
    by (simp add: idle_def empty_table_def)
  from one_record_per_check [OF h m] obtain new where
    n: "snd (cycle ?envs 0 [api_a, api_b] idle) = None"
      "metrics (db (fst (cycle ?envs 0 [api_a, api_b] idle))) = Some ([] @ new)"
      "length new = length [api_a, api_b]"
    and each: "\<forall>i<length [api_a, api_b].
                map_of ([api_a, api_b] ! i) ''url'' = Some (endpoint (new ! i))
                \<and> response_time (new ! i) =
                    epoch (at_end (?envs (0 + i))) - epoch (at_start (?envs (0 + i)))
                \<and> (epoch (at_start (?envs (0 + i))) \<le> epoch (at_end (?envs (0 + i)))
                     \<longrightarrow> 0 \<le> response_time (new ! i))"
    by blast
  from each [rule_format, of 0] have a: "endpoint (new ! 0) = ''http://a.test/''"
    "response_time (new ! 0) = 5"
    by (simp_all add: first_then_def api_a_def env_timeout_def noon_plus_def)
  from each [rule_format, of 1] have b: "endpoint (new ! 1) = ''http://b.test/''"
    "response_time (new ! 1) = 1"
    by (simp_all add: first_then_def api_b_def env_response_def noon_plus_def)
  from n a b show ?thesis by simp
qed

subsection \<open>The summary query\<close>

lemma log_metric_flag:
  assumes "log_metric w d u m t c ok msg = Inr d'"
    and "\<forall>r\<in>set (stored d). success r = 0 \<or> success r = 1"
    and "ok = 0 \<or> ok = 1"
  shows "\<forall>r\<in>set (stored d'). success r = 0 \<or> success r = 1"
proof -
  from assms(1) obtain rows where rows: "metrics d = Some rows" and io: "sqlite w = Completes"
    by (cases "sqlite w"; cases "metrics d") (simp_all add: log_metric_def)
  from assms(1) rows io obtain r where "stored d' = stored d @ [r]" "success r = ok"
    by (auto simp: log_metric_def Let_def stored_def)
  with assms(2,3) show ?thesis by auto
qed

lemma except_block_flags:
  assumes "\<forall>r\<in>set (stored (db s)). success r = 0 \<or> success r = 1"
  shows "\<forall>r\<in>set (stored (db (fst (except_block e clk w start url m s)))).
           success r = 0 \<or> success r = 1"
proof (cases "log_metric w (db s) url m (epoch clk - start) (- 1) 0 (Some (str e))")
  case (Inl e')
  with assms show ?thesis by (simp add: except_block_def Let_def)
next
  case (Inr d)
  from log_metric_flag [OF Inr assms] Inr show ?thesis
    by (simp add: except_block_def Let_def)
qed

lemma check_flags:
  assumes "\<forall>r\<in>set (stored (db s)). success r = 0 \<or> success r = 1"
  shows "\<forall>r\<in>set (stored (db (fst (check env api s)))). success r = 0 \<or> success r = 1"
proof (cases "map_of api ''url''")
  case None
  with assms show ?thesis by (simp add: check_def)
next
  case (Some url)
  let ?m = "upper (case map_of api ''method'' of None \<Rightarrow> ''GET'' | Some m \<Rightarrow> m)"
  let ?s1 = "s\<lparr>sent := sent s @ [(?m, url)]\<rparr>"
  have s1: "\<forall>r\<in>set (stored (db ?s1)). success r = 0 \<or> success r = 1"
    using assms by simp
  show ?thesis
  proof (cases "request env")
    case (Raises msg)
    with Some except_block_flags [OF s1] show ?thesis
      by (simp add: check_def Let_def)
  next
    case (Response code)
    show ?thesis
    proof (cases "log_metric (first_write env) (db ?s1) url ?m
                    (epoch (at_end env) - epoch (at_start env)) code 1 None")
      case (Inl e)
      with Some Response except_block_flags [OF s1] show ?thesis
        by (simp add: check_def Let_def)
    next
      case (Inr d)
      from log_metric_flag [OF Inr s1] have "\<forall>r\<in>set (stored d). success r = 0 \<or> success r = 1"
        by simp
      with Some Response Inr show ?thesis
        by (simp add: check_def Let_def)
    qed
  qed
qed

lemma cycle_flags:
  assumes "\<forall>r\<in>set (stored (db s)). success r = 0 \<or> success r = 1"
  shows "\<forall>r\<in>set (stored (db (fst (cycle envs k apis s)))). success r = 0 \<or> success r = 1"
  using assms
proof (induction apis arbitrary: k s)
  case Nil
  then show ?case by simp
next
  case (Cons api apis)
  obtain s' x where c: "check (envs k) api s = (s', x)"
    by (cases "check (envs k) api s")
  from check_flags [OF Cons.prems, of "envs k" api] c
  have s': "\<forall>r\<in>set (stored (db s')). success r = 0 \<or> success r = 1"
    by simp
  show ?case
  proof (cases x)
    case None
    with c Cons.IH [OF s'] show ?thesis by simp
  next
    case (Some e)
    with c s' show ?thesis by simp
  qed
qed

lemma monitor_api_flags:
  assumes "\<forall>r\<in>set (stored (db s)). success r = 0 \<or> success r = 1"
  shows "\<forall>r\<in>set (stored (db (fst (monitor_api n envs c apis s)))). success r = 0 \<or> success r = 1"
  using assms
proof (induction n arbitrary: c s)
  case 0
  then show ?case by simp
next
  case (Suc n)
  obtain s' x where cy: "cycle (envs c) 0 apis s = (s', x)"
    by (cases "cycle (envs c) 0 apis s")
  from cycle_flags [OF Suc.prems, of "envs c" 0 apis] cy
  have s': "\<forall>r\<in>set (stored (db s')). success r = 0 \<or> success r = 1"
    by simp
  show ?case
  proof (cases x)
    case None
    with cy Suc.IH [OF s'] show ?thesis by simp
  next
    case (Some e)
    with cy s' show ?thesis by simp
  qed
qed

lemma flags_add_up:
  "\<forall>r\<in>set g. success r = 0 \<or> success r = 1 \<Longrightarrow>
   sum_list (map (\<lambda>r. if success r = 1 then 1 else 0) g)
     + sum_list (map (\<lambda>r. if success r = 0 then 1 else 0) g) = (length g :: nat)"
  by (induction g) auto

lemma count_as_filter:
  "sum_list (map (\<lambda>r. if P r then 1 else 0) g) = (length (filter P g) :: nat)"
  by (induction g) simp_all

lemma one_group_per_key:
  "distinct us \<Longrightarrow> u \<in> set us \<Longrightarrow>
   filter (\<lambda>x. s_endpoint x = u) (map (\<lambda>v. aggregate v rows) us) = [aggregate u rows]"
proof (induction us)
  case Nil
  then show ?case by simp
next
  case (Cons v us)
  have key: "s_endpoint (aggregate w rows) = w" for w
    by (simp add: aggregate_def Let_def)
  show ?case
  proof (cases "v = u")
    case True
    with Cons.prems have "u \<notin> set us" by simp
    then have "filter (\<lambda>x. s_endpoint x = u) (map (\<lambda>v. aggregate v rows) us) = []"
      by (auto simp: filter_empty_conv key)
    with True show ?thesis by (simp add: key)
  next
    case False
    with Cons show ?thesis by (simp add: key)
  qed
qed

text \<open>
  Claim C3: for every endpoint with a row in the table, the summary has exactly one row; its
  total is the number of rows of the endpoint, its successes and failures count the rows
  with \<open>success = 1\<close> and \<open>success = 0\<close>, and its average is the mean response time of all
  rows of the endpoint. Successes and failures add up to the total in every table whose rows
  have \<open>success\<close> 0 or 1, and so in every table the loop has written, after any number of
  cycles and whatever the checks met: \<^verbatim>\<open>monitor_api\<close>, the only writer, passes 1 or 0.
\<close>

theorem summary_per_endpoint:
  assumes "r0 \<in> set rows"
  shows "\<exists>sr. filter (\<lambda>x. s_endpoint x = endpoint r0) (select_summary rows) = [sr]
    \<and> total' sr = length (filter (\<lambda>r. endpoint r = endpoint r0) rows)
    \<and> successes sr = length (filter (\<lambda>r. endpoint r = endpoint r0 \<and> success r = 1) rows)
    \<and> failures sr = length (filter (\<lambda>r. endpoint r = endpoint r0 \<and> success r = 0) rows)
    \<and> avg_time sr =
        Some (sum_list (map response_time (filter (\<lambda>r. endpoint r = endpoint r0) rows))
              / real (total' sr))
    \<and> ((\<forall>r\<in>set rows. success r = 0 \<or> success r = 1) \<longrightarrow>
         successes sr + failures sr = total' sr)
    \<and> (\<forall>n envs c apis s. (\<forall>r\<in>set (stored (db s)). success r = 0 \<or> success r = 1) \<longrightarrow>
         rows = stored (db (fst (monitor_api n envs c apis s))) \<longrightarrow>
         successes sr + failures sr = total' sr)"
proof -
  let ?u = "endpoint r0"
  let ?g = "filter (\<lambda>r. endpoint r = ?u) rows"
  have "?u \<in> set (remdups (map endpoint rows))"
    using assms by simp
  then have one: "filter (\<lambda>x. s_endpoint x = ?u) (select_summary rows) = [aggregate ?u rows]"
    unfolding select_summary_def by (intro one_group_per_key) simp_all
  have ne: "?g \<noteq> []"
    using assms by (auto simp: filter_empty_conv)
  have t: "total' (aggregate ?u rows) = length ?g"
    by (simp add: aggregate_def Let_def)
  have s: "successes (aggregate ?u rows)
             = length (filter (\<lambda>r. endpoint r = ?u \<and> success r = 1) rows)"
    by (simp add: aggregate_def Let_def count_as_filter conj_commute)
  have f: "failures (aggregate ?u rows)
             = length (filter (\<lambda>r. endpoint r = ?u \<and> success r = 0) rows)"
    by (simp add: aggregate_def Let_def count_as_filter conj_commute)
  have a: "avg_time (aggregate ?u rows)
             = Some (sum_list (map response_time ?g) / real (total' (aggregate ?u rows)))"
    using ne by (simp add: aggregate_def Let_def)
  have sf: "successes (aggregate ?u rows) + failures (aggregate ?u rows)
              = total' (aggregate ?u rows)"
    if "\<forall>r\<in>set rows. success r = 0 \<or> success r = 1"
  proof -
    from that have "\<forall>r\<in>set ?g. success r = 0 \<or> success r = 1" by simp
    from flags_add_up [OF this] show ?thesis
      by (simp add: aggregate_def Let_def)
  qed
  have reach: "successes (aggregate ?u rows) + failures (aggregate ?u rows)
              = total' (aggregate ?u rows)"
    if "\<forall>r\<in>set (stored (db s)). success r = 0 \<or> success r = 1"
      and "rows = stored (db (fst (monitor_api n envs c apis s)))"
    for n envs c apis s
    using sf monitor_api_flags [OF that(1), of n envs c apis] that(2) by simp
  from one t s f a sf reach show ?thesis by blast
qed

theorem summary_per_endpoint_witness:
  "\<exists>sr. filter (\<lambda>x. s_endpoint x = ''http://a.test/'') (select_summary four_rows) = [sr]
     \<and> total' sr = 4 \<and> successes sr = 3 \<and> failures sr = 1 \<and> avg_time sr = Some (4 / 10)
     \<and> successes sr + failures sr = total' sr"
proof -
  have r: "row_of 1 (1 / 10) 1 \<in> set four_rows"
    by (simp add: four_rows_def)
  have e: "endpoint (row_of 1 (1 / 10) 1) = ''http://a.test/''"
    by (simp add: row_of_def)
  have g: "filter (\<lambda>r. endpoint r = ''http://a.test/'') four_rows = four_rows"
    by (simp add: four_rows_def row_of_def)
  have g1: "length (filter (\<lambda>r. endpoint r = ''http://a.test/'' \<and> success r = 1) four_rows) = 3"
    by (simp add: four_rows_def row_of_def)
  have g0: "length (filter (\<lambda>r. endpoint r = ''http://a.test/'' \<and> success r = 0) four_rows) = 1"
    by (simp add: four_rows_def row_of_def)
  have n: "length four_rows = 4"
    by (simp add: four_rows_def)
  have t: "sum_list (map response_time four_rows) = 16 / 10"
    by (simp add: four_rows_def row_of_def)
  have flags: "\<forall>r\<in>set four_rows. success r = 0 \<or> success r = 1"
    by (simp add: four_rows_def row_of_def)
  from summary_per_endpoint [OF r] flags show ?thesis
    unfolding e g g1 g0 n t by auto
qed

subsection \<open>The recent records\<close>

lemma fold_max_ge: "a \<le> fold max xs (a::nat)"
proof (induction xs arbitrary: a)
  case Nil
  then show ?case by simp
next
  case (Cons x xs)
  have "a \<le> max x a" by simp
  also have "max x a \<le> fold max xs (max x a)" by (rule Cons.IH)
  finally show ?case by simp
qed

lemma fold_max_ge_elem: "x \<in> set xs \<Longrightarrow> x \<le> fold max xs (a::nat)"
proof (induction xs arbitrary: a)
  case Nil
  then show ?case by simp
next
  case (Cons y ys)
  show ?case
  proof (cases "x = y")
    case True
    have "max y a \<le> fold max ys (max y a)" by (rule fold_max_ge)
    with True show ?thesis by simp
  next
    case False
    with Cons show ?thesis by simp
  qed
qed

lemma next_id_above: "r \<in> set rows \<Longrightarrow> row_id r < next_id sq rows"
  using fold_max_ge_elem [of "row_id r" "map row_id rows" sq]
  by (simp add: next_id_def less_Suc_eq_le)

lemma log_metric_appends:
  assumes "log_metric w d u m t c ok msg = Inr d'"
    and "sorted_wrt (<) (map row_id (stored d))"
  shows "\<exists>r. metrics d \<noteq> None \<and> metrics d' = Some (stored d @ [r])
    \<and> args_of r = (u, m, t, c, ok, msg) \<and> timestamp r = isoformat (utc (now w))
    \<and> sorted_wrt (<) (map row_id (stored d'))"
proof -
  from assms(1) obtain rows where rows: "metrics d = Some rows" and io: "sqlite w = Completes"
    by (cases "sqlite w"; cases "metrics d") (simp_all add: log_metric_def)
  let ?r = "\<lparr>row_id = next_id (sqlite_sequence d) rows, timestamp = isoformat (utc (now w)),
              endpoint = u, http_method = m, response_time = t, status_code = c,
              success = ok, error_message = msg\<rparr>"
  from assms(1) rows io have d': "metrics d' = Some (rows @ [?r])"
    by (auto simp: log_metric_def Let_def)
  have st: "stored d = rows" "stored d' = rows @ [?r]"
    using rows d' by (simp_all add: stored_def)
  have "\<forall>x\<in>set rows. row_id x < row_id ?r"
    by (simp add: next_id_above)
  with assms(2) st have "sorted_wrt (<) (map row_id (stored d'))"
    by (simp add: sorted_wrt_append)
  moreover have "args_of ?r = (u, m, t, c, ok, msg)" "timestamp ?r = isoformat (utc (now w))"
    by (simp_all add: args_of_def)
  ultimately show ?thesis
    using rows d' st by blast
qed

lemma log_metrics_appends:
  assumes "log_metrics calls d = Inr d'"
    and "metrics d \<noteq> None"
    and "sorted_wrt (<) (map row_id (stored d))"
  shows "\<exists>new. stored d' = stored d @ new
    \<and> map args_of new = map snd calls
    \<and> map timestamp new = map (\<lambda>c. isoformat (utc (now (fst c)))) calls
    \<and> sorted_wrt (<) (map row_id (stored d'))"
  using assms
proof (induction calls arbitrary: d)
  case Nil
  then show ?case by simp
next
  case (Cons call calls)
  obtain w u m t c ok msg where call: "call = (w, u, m, t, c, ok, msg)"
    by (cases call)
  from Cons.prems(1) call obtain d1 where
    d1: "log_metric w d u m t c ok msg = Inr d1" and rest: "log_metrics calls d1 = Inr d'"
    by (auto split: sum.splits)
  from log_metric_appends [OF d1 Cons.prems(3)] obtain r where
    r: "metrics d1 = Some (stored d @ [r])" "args_of r = (u, m, t, c, ok, msg)"
      "timestamp r = isoformat (utc (now w))" "sorted_wrt (<) (map row_id (stored d1))"
    by blast
  then have st: "stored d1 = stored d @ [r]" and ex: "metrics d1 \<noteq> None"
    by (simp_all add: stored_def)
  from Cons.IH [OF rest ex r(4)] obtain new where
    new: "stored d' = stored d1 @ new" "map args_of new = map snd calls"
      "map timestamp new = map (\<lambda>c. isoformat (utc (now (fst c)))) calls"
      "sorted_wrt (<) (map row_id (stored d'))"
    by blast
  have "stored d' = stored d @ (r # new)"
    using new(1) st by simp
  moreover have "map args_of (r # new) = map snd (call # calls)"
    using new(2) r(2) call by simp
  moreover have "map timestamp (r # new)
      = map (\<lambda>c. isoformat (utc (now (fst c)))) (call # calls)"
    using new(3) r(3) call by simp
  ultimately show ?case
    using new(4) by blast
qed

lemma select_recent_increasing:
  assumes "sorted_wrt (<) (map row_id rows)"
  shows "select_recent n rows = take n (rev rows)"
proof -
  from assms have "sorted (map row_id rows)"
    by (simp add: strict_sorted_iff)
  then show ?thesis
    by (simp add: select_recent_def sort_key_id_if_sorted)
qed

lemma sorted_desc: "sorted_wrt (\<lambda>a b. row_id b \<le> row_id a) (rev (sort_key row_id rows))"
proof -
  have "sorted (map row_id (sort_key row_id rows))"
    by (rule sorted_sort_key)
  then have "sorted_wrt (\<lambda>a b. row_id a \<le> row_id b) (sort_key row_id rows)"
    by (simp add: sorted_wrt_map)
  then show ?thesis
    by (simp add: sorted_wrt_rev)
qed

lemma zero_padded_numeral:
  "zero_padded (numeral k) n =
     zero_padded (pred_numeral k) (n div 10) @ [char_of (48 + n mod 10)]"
  by (simp only: numeral_eq_Suc zero_padded.simps)

lemma three_calls_timestamps:
  "map (\<lambda>c. isoformat (utc (now (fst c)))) three_calls =
     [''2024-01-01T12:00:30'', ''2024-01-01T12:00:20'', ''2024-01-01T12:00:10'']"
  by (simp add: three_calls_def write_ok_def noon_plus_def isoformat_def zero_padded_numeral
      char_of_def bit_Suc_0_iff)

text \<open>
  Claim C4: the query returns at most \<open>n\<close> rows, in descending order of id, and no row left
  out has a larger id than a row returned; after \<open>k \<le> n\<close> inserts into an empty table it
  returns exactly the inserted rows, the last one first, whatever their timestamps: in the
  run below the clock goes back from one insert to the next, and the row returned first has
  the earliest timestamp.
\<close>

theorem recent_newest_first:
  "length (select_recent n rows) \<le> n
   \<and> length (select_recent n rows) = min n (length rows)
   \<and> sorted_wrt (\<lambda>a b. row_id b \<le> row_id a) (select_recent n rows)
   \<and> set (select_recent n rows) \<subseteq> set rows
   \<and> (\<forall>x\<in>set rows - set (select_recent n rows). \<forall>y\<in>set (select_recent n rows).
         row_id x \<le> row_id y)
   \<and> (metrics d = Some [] \<longrightarrow> log_metrics calls d = Inr d' \<longrightarrow> length calls \<le> n \<longrightarrow>
        select_recent n (stored d') = rev (stored d')
        \<and> map args_of (select_recent n (stored d')) = rev (map snd calls)
        \<and> map timestamp (select_recent n (stored d'))
            = rev (map (\<lambda>c. isoformat (utc (now (fst c)))) calls))"
proof -
  let ?ys = "rev (sort_key row_id rows)"
  have len: "length (select_recent n rows) = min n (length rows)"
    by (simp add: select_recent_def min.commute)
  have desc: "sorted_wrt (\<lambda>a b. row_id b \<le> row_id a) (take n ?ys @ drop n ?ys)"
    using sorted_desc [of rows] by simp
  then have ord: "sorted_wrt (\<lambda>a b. row_id b \<le> row_id a) (select_recent n rows)"
    and cut: "\<forall>y\<in>set (take n ?ys). \<forall>x\<in>set (drop n ?ys). row_id x \<le> row_id y"
    unfolding sorted_wrt_append select_recent_def by blast+
  have sub: "set (select_recent n rows) \<subseteq> set rows"
    using set_take_subset [of n ?ys] by (simp add: select_recent_def)
  have rest: "row_id x \<le> row_id y"
    if "x \<in> set rows - set (select_recent n rows)" and "y \<in> set (select_recent n rows)"
    for x y
  proof -
    have "set rows = set (take n ?ys) \<union> set (drop n ?ys)"
      using set_append [of "take n ?ys" "drop n ?ys"] by simp
    with that(1) have "x \<in> set (drop n ?ys)"
      by (auto simp: select_recent_def)
    with cut that(2) show ?thesis
      by (simp add: select_recent_def)
  qed
  have fresh: "select_recent n (stored d') = rev (stored d')
        \<and> map args_of (select_recent n (stored d')) = rev (map snd calls)
        \<and> map timestamp (select_recent n (stored d'))
            = rev (map (\<lambda>c. isoformat (utc (now (fst c)))) calls)"
    if e: "metrics d = Some []" and l: "log_metrics calls d = Inr d'" and k: "length calls \<le> n"
  proof -
    from e have "metrics d \<noteq> None" "sorted_wrt (<) (map row_id (stored d))" "stored d = []"
      by (simp_all add: stored_def)
    from log_metrics_appends [OF l this(1,2)] this(3) have
      a: "map args_of (stored d') = map snd calls"
      and t: "map timestamp (stored d') = map (\<lambda>c. isoformat (utc (now (fst c)))) calls"
      and s: "sorted_wrt (<) (map row_id (stored d'))"
      by auto
    from a have "length (stored d') = length calls"
      using length_map by metis
    with k select_recent_increasing [OF s, of n]
    have "select_recent n (stored d') = rev (stored d')"
      by simp
    with a t show ?thesis
      by (simp flip: rev_map)
  qed
  have le: "length (select_recent n rows) \<le> n"
    using len by simp
  from le len ord sub rest fresh show ?thesis
    by blast
qed

theorem recent_newest_first_witness:
  "\<exists>d. log_metrics three_calls empty_table = Inr d
     \<and> length (select_recent 50 (stored d)) = 3
     \<and> select_recent 50 (stored d) = rev (stored d)
     \<and> map args_of (select_recent 50 (stored d)) = rev (map snd three_calls)
     \<and> map timestamp (select_recent 50 (stored d)) =
         rev (map (\<lambda>c. isoformat (utc (now (fst c)))) three_calls)
     \<and> map timestamp (select_recent 50 (stored d)) =
         [''2024-01-01T12:00:10'', ''2024-01-01T12:00:20'', ''2024-01-01T12:00:30'']"
proof -
  have e: "metrics empty_table = Some []"
    by (simp add: empty_table_def)
  have "\<exists>d. log_metrics three_calls empty_table = Inr d"
    by (simp add: three_calls_def empty_table_def write_ok_def log_metric_def Let_def)
  then obtain d where d: "log_metrics three_calls empty_table = Inr d" ..
  have k: "length three_calls \<le> 50"
    by (simp add: three_calls_def)
  note all = recent_newest_first [of 50 "stored d" empty_table three_calls d]
  note fresh = all [THEN conjunct2, THEN conjunct2, THEN conjunct2, THEN conjunct2,
      THEN conjunct2, rule_format, OF e d k]
  have r1: "select_recent 50 (stored d) = rev (stored d)"
    using fresh by (rule conjunct1)
  have r2: "map args_of (select_recent 50 (stored d)) = rev (map snd three_calls)"
    using fresh by (elim conjE)
  have r3: "map timestamp (select_recent 50 (stored d))
       = rev (map (\<lambda>c. isoformat (utc (now (fst c)))) three_calls)"
    using fresh by (elim conjE)
  have "length (map args_of (select_recent 50 (stored d))) = 3"
    unfolding r2 by (simp add: three_calls_def)
  then have n: "length (select_recent 50 (stored d)) = 3"
    by simp
  have r4: "map timestamp (select_recent 50 (stored d)) =
         [''2024-01-01T12:00:10'', ''2024-01-01T12:00:20'', ''2024-01-01T12:00:30'']"
    unfolding r3 three_calls_timestamps by simp
  from d n r1 r2 r3 r4 show ?thesis
    by (intro exI [of _ d] conjI)
qed

end
